theory Spec2Isabelle
  imports Main "HOL-Library.Monad_Syntax" "HOL-Library.Char_ord" "HOL-Library.List_Lexorder"
begin

section \<open>JSON values\<close>

text \<open>
  The value that \<^verbatim>\<open>r.json()\<close> hands to \<^verbatim>\<open>ListBooksResponse.parse_obj\<close>: Python's
  \<^verbatim>\<open>None\<close>, \<^verbatim>\<open>bool\<close>, \<^verbatim>\<open>int\<close>, \<^verbatim>\<open>str\<close>, \<^verbatim>\<open>list\<close> and \<^verbatim>\<open>dict\<close> with string keys.
  An object is an association list in document order; a Python dict has no two equal
  keys, and lookups (\<open>map_of\<close>) take the first entry of a key.

  Scope of the model: JSON numbers with a fraction or an exponent (Python floats) are
  not represented; a character is a code point below 256; the interpreter's limit on
  the length of integer-to-string conversions is not represented.
\<close>

datatype json =
    JNull
  | JBool bool
  | JInt int
  | JStr string
  | JList "json list"
  | JObj "(string \<times> json) list"

section \<open>The declared models\<close>

text \<open>
  \<^verbatim>\<open>class Person(BaseModel)\<close>, \<^verbatim>\<open>class Book(BaseModel)\<close> and
  \<^verbatim>\<open>class ListBooksResponse(BaseModel)\<close>, field by field with the annotated types.
  \<^verbatim>\<open>id\<close> and \<^verbatim>\<open>next\<close> carry a prime, the plain names being taken in HOL.
  \<^verbatim>\<open>formats: dict\<close> is an unparameterised Python dict: its keys are whatever hashable
  values the input supplies and its values are arbitrary.
\<close>

record Person =
  birth_year :: "int option"
  death_year :: "int option"
  name :: string

record Book =
  id' :: int
  title :: string
  subjects :: "string list"
  authors :: "Person list"
  translators :: "Person list"
  bookshelves :: "string list"
  languages :: "string list"
  copyright :: "bool option"
  media_type :: string
  formats :: "(json \<times> json) list"
  download_count :: int

record ListBooksResponse =
  count :: int
  next' :: "string option"
  previous :: "string option"
  results :: "Book list"

section \<open>Python conversions used by the field validators\<close>

text \<open>\<^verbatim>\<open>str(n)\<close> for an integer: decimal digits, with a minus sign when negative.\<close>

definition digit_char :: "nat \<Rightarrow> char" where
  "digit_char d = ''0123456789'' ! (d mod 10)"

fun dec :: "nat \<Rightarrow> string" where
  "dec n = (if n < 10 then [digit_char n] else dec (n div 10) @ [digit_char (n mod 10)])"

declare dec.simps [simp del]

definition str_of_int :: "int \<Rightarrow> string" where
  "str_of_int i = (if i < 0 then CHR ''-'' # dec (nat (- i)) else dec (nat i))"

text \<open>
  \<^verbatim>\<open>int(s)\<close> for a string: white space around the literal is dropped, then an optional
  sign, then decimal digits in which single underscores may separate digits. The white
  space of \<^verbatim>\<open>int\<close> is tab, line feed, vertical tab, form feed, carriage return and
  space, and of the characters beyond ASCII the next-line and no-break space; the
  separator controls 28 to 31 are not part of it.
\<close>

definition is_space :: "char \<Rightarrow> bool" where
  "is_space c = ((of_char c :: nat) \<in> set [9, 10, 11, 12, 13, 32, 133, 160])"

definition strip :: "string \<Rightarrow> string" where
  "strip s = rev (dropWhile is_space (rev (dropWhile is_space s)))"

definition is_digit :: "char \<Rightarrow> bool" where
  "is_digit c = (48 \<le> (of_char c :: nat) \<and> (of_char c :: nat) \<le> 57)"

definition digit_val :: "char \<Rightarrow> nat" where
  "digit_val c = of_char c - 48"

fun digits :: "nat \<Rightarrow> string \<Rightarrow> nat option" where
  "digits acc [] = None"
| "digits acc (c # cs) =
     (if is_digit c then
        (case cs of
           [] \<Rightarrow> Some (acc * 10 + digit_val c)
         | d # ds \<Rightarrow>
             if d = CHR ''_'' then digits (acc * 10 + digit_val c) ds
             else digits (acc * 10 + digit_val c) cs)
      else None)"

definition int_of_str :: "string \<Rightarrow> int option" where
  "int_of_str s =
     (case strip s of
        [] \<Rightarrow> None
      | c # cs \<Rightarrow>
          if c = CHR ''-'' then map_option (\<lambda>n. - int n) (digits 0 cs)
          else if c = CHR ''+'' then map_option int (digits 0 cs)
          else map_option int (digits 0 (c # cs)))"

text \<open>
  \<^verbatim>\<open>s.lower()\<close>, as far as the comparison with the words of \<^verbatim>\<open>BOOL_TRUE\<close> and
  \<^verbatim>\<open>BOOL_FALSE\<close> can tell: those words are ASCII, and no character outside ASCII
  lowers to one of their letters.
\<close>

definition lower_char :: "char \<Rightarrow> char" where
  "lower_char c =
     (if 65 \<le> (of_char c :: nat) \<and> (of_char c :: nat) \<le> 90
      then char_of ((of_char c :: nat) + 32) else c)"

definition lower :: "string \<Rightarrow> string" where
  "lower s = map lower_char s"

section \<open>Field validators\<close>

text \<open>
  The validators that the validation library attaches to the annotations of the three
  classes, in its default (non-strict) configuration. \<open>None\<close> is a validator raising
  \<^verbatim>\<open>ValueError\<close> or \<^verbatim>\<open>TypeError\<close>, which the library collects into the
  \<^verbatim>\<open>ValidationError\<close> of the enclosing model.
\<close>

fun int_validator :: "json \<Rightarrow> int option" where
  "int_validator (JInt n) = Some n"
| "int_validator (JBool b) = Some (if b then 1 else 0)"
| "int_validator (JStr s) = int_of_str s"
| "int_validator _ = None"

fun str_validator :: "json \<Rightarrow> string option" where
  "str_validator (JStr s) = Some s"
| "str_validator (JInt n) = Some (str_of_int n)"
| "str_validator (JBool b) = Some (if b then ''True'' else ''False'')"
| "str_validator _ = None"

definition BOOL_FALSE :: "string list" where
  "BOOL_FALSE = [''0'', ''off'', ''f'', ''false'', ''n'', ''no'']"

definition BOOL_TRUE :: "string list" where
  "BOOL_TRUE = [''1'', ''on'', ''t'', ''true'', ''y'', ''yes'']"

fun bool_validator :: "json \<Rightarrow> bool option" where
  "bool_validator (JBool b) = Some b"
| "bool_validator (JInt n) = (if n = 1 then Some True else if n = 0 then Some False else None)"
| "bool_validator (JStr s) =
     (if lower s \<in> set BOOL_TRUE then Some True
      else if lower s \<in> set BOOL_FALSE then Some False else None)"
| "bool_validator _ = None"

text \<open>
  A field of a model. \<open>required\<close>: an annotation without \<^verbatim>\<open>Optional\<close>; the key must
  be there and its value must not be \<^verbatim>\<open>None\<close>. \<open>optional\<close>: \<^verbatim>\<open>Optional[T]\<close> with no
  default; a missing key and an explicit null both give \<^verbatim>\<open>None\<close>.
\<close>

fun required :: "(json \<Rightarrow> 'a option) \<Rightarrow> json option \<Rightarrow> 'a option" where
  "required f None = None"
| "required f (Some JNull) = None"
| "required f (Some v) = f v"

fun optional :: "(json \<Rightarrow> 'a option) \<Rightarrow> json option \<Rightarrow> 'a option option" where
  "optional f None = Some None"
| "optional f (Some JNull) = Some None"
| "optional f (Some v) = map_option Some (f v)"

text \<open>\<^verbatim>\<open>list[T]\<close>: the value must be a list; each element goes through the validator of \<open>T\<close>.\<close>

fun list_validator :: "(json \<Rightarrow> 'a option) \<Rightarrow> json \<Rightarrow> 'a list option" where
  "list_validator f (JList xs) = those (map f xs)"
| "list_validator f _ = None"

subsection \<open>Values accepted where a dict is expected\<close>

text \<open>
  \<^verbatim>\<open>dict_validator\<close>, \<^verbatim>\<open>Model.validate\<close> and \<^verbatim>\<open>parse_obj\<close> take a dict as it is and
  pass anything else to Python's \<^verbatim>\<open>dict(v)\<close>, which builds a dict from an iterable of
  two-element iterables and raises otherwise. Keys must be hashable; \<^verbatim>\<open>True\<close> and
  \<^verbatim>\<open>1\<close> (and \<^verbatim>\<open>False\<close> and \<^verbatim>\<open>0\<close>) are the same key; a repeated key keeps its first
  position and takes the last value.
\<close>

fun hashable :: "json \<Rightarrow> bool" where
  "hashable (JList _) = False"
| "hashable (JObj _) = False"
| "hashable _ = True"

fun key_eq :: "json \<Rightarrow> json \<Rightarrow> bool" where
  "key_eq (JBool b) (JInt n) = (n = (if b then 1 else 0))"
| "key_eq (JInt n) (JBool b) = (n = (if b then 1 else 0))"
| "key_eq a b = (a = b)"

fun dict_set :: "(json \<times> json) list \<Rightarrow> json \<times> json \<Rightarrow> (json \<times> json) list" where
  "dict_set [] (k, v) = [(k, v)]"
| "dict_set ((k', v') # d) (k, v) =
     (if key_eq k' k then (k', v) # d else (k', v') # dict_set d (k, v))"

fun pair_of :: "json \<Rightarrow> (json \<times> json) option" where
  "pair_of (JList [k, v]) = (if hashable k then Some (k, v) else None)"
| "pair_of (JStr [a, b]) = Some (JStr [a], JStr [b])"
| "pair_of (JObj [(a, _), (b, _)]) = Some (JStr a, JStr b)"
| "pair_of _ = None"

fun py_dict :: "json \<Rightarrow> (json \<times> json) list option" where
  "py_dict (JObj kvs) = Some (map (\<lambda>(k, v). (JStr k, v)) kvs)"
| "py_dict (JList xs) = map_option (foldl dict_set []) (those (map pair_of xs))"
| "py_dict (JStr s) = (if s = [] then Some [] else None)"
| "py_dict _ = None"

definition dict_validator :: "json \<Rightarrow> (json \<times> json) list option" where
  "dict_validator v = py_dict v"

text \<open>
  \<^verbatim>\<open>cls(**d)\<close>: the keyword arguments of the model's constructor, which is declared
  \<^verbatim>\<open>__init__(__pydantic_self__, **data)\<close>. Every key must be a string, and no key may
  be the name of the constructor's own first parameter, or the call itself raises
  \<^verbatim>\<open>TypeError\<close>.
\<close>

fun kwarg :: "json \<times> json \<Rightarrow> (string \<times> json) option" where
  "kwarg (JStr k, v) = (if k = ''__pydantic_self__'' then None else Some (k, v))"
| "kwarg _ = None"

definition kwargs :: "(json \<times> json) list \<Rightarrow> (string \<times> json) list option" where
  "kwargs d = those (map kwarg d)"

section \<open>Validation of the three models\<close>

text \<open>
  The constructor of each class, once called: every declared field is looked up in the
  keyword arguments and validated; keys that are not fields are ignored. The model is
  built when every field validates.
\<close>

definition Person_init :: "(string \<times> json) list \<Rightarrow> Person option" where
  "Person_init kw = do {
     b \<leftarrow> optional int_validator (map_of kw ''birth_year'');
     d \<leftarrow> optional int_validator (map_of kw ''death_year'');
     n \<leftarrow> required str_validator (map_of kw ''name'');
     Some \<lparr>birth_year = b, death_year = d, name = n\<rparr>
   }"

text \<open>
  \<^verbatim>\<open>Model.validate\<close>, the validator of a field whose type is a model: a
  \<^verbatim>\<open>TypeError\<close> of the constructor call is caught like any validator's.
\<close>

definition Person_validate :: "json \<Rightarrow> Person option" where
  "Person_validate v = do { d \<leftarrow> py_dict v; kw \<leftarrow> kwargs d; Person_init kw }"

definition Book_init :: "(string \<times> json) list \<Rightarrow> Book option" where
  "Book_init kw = do {
     i \<leftarrow> required int_validator (map_of kw ''id'');
     t \<leftarrow> required str_validator (map_of kw ''title'');
     su \<leftarrow> required (list_validator str_validator) (map_of kw ''subjects'');
     au \<leftarrow> required (list_validator Person_validate) (map_of kw ''authors'');
     tr \<leftarrow> required (list_validator Person_validate) (map_of kw ''translators'');
     bs \<leftarrow> required (list_validator str_validator) (map_of kw ''bookshelves'');
     la \<leftarrow> required (list_validator str_validator) (map_of kw ''languages'');
     co \<leftarrow> optional bool_validator (map_of kw ''copyright'');
     mt \<leftarrow> required str_validator (map_of kw ''media_type'');
     fo \<leftarrow> required dict_validator (map_of kw ''formats'');
     dc \<leftarrow> required int_validator (map_of kw ''download_count'');
     Some \<lparr>id' = i, title = t, subjects = su, authors = au, translators = tr,
       bookshelves = bs, languages = la, copyright = co, media_type = mt,
       formats = fo, download_count = dc\<rparr>
   }"

definition Book_validate :: "json \<Rightarrow> Book option" where
  "Book_validate v = do { d \<leftarrow> py_dict v; kw \<leftarrow> kwargs d; Book_init kw }"

definition ListBooksResponse_init :: "(string \<times> json) list \<Rightarrow> ListBooksResponse option" where
  "ListBooksResponse_init kw = do {
     c \<leftarrow> required int_validator (map_of kw ''count'');
     n \<leftarrow> optional str_validator (map_of kw ''next'');
     p \<leftarrow> optional str_validator (map_of kw ''previous'');
     rs \<leftarrow> required (list_validator Book_validate) (map_of kw ''results'');
     Some \<lparr>count = c, next' = n, previous = p, results = rs\<rparr>
   }"

section \<open>Errors\<close>

text \<open>
  The exceptions that leave \<^verbatim>\<open>list_of_books\<close>. \<^verbatim>\<open>HTTPError\<close> (raised by
  \<^verbatim>\<open>raise_for_status\<close>, carrying the response) and \<^verbatim>\<open>ConnectionError\<close> (raised by
  \<^verbatim>\<open>session.get\<close>) are the specification's TransportError, \<^verbatim>\<open>JSONDecodeError\<close> its
  DecodeError and \<^verbatim>\<open>ValidationError\<close> its SchemaError.
\<close>

record Response =
  status_code :: int
  content :: string
  json_result :: "json option"

datatype error =
    HTTPError Response
  | ConnectionError string
  | JSONDecodeError
  | ValidationError
  | TypeError

text \<open>
  \<^verbatim>\<open>ListBooksResponse.parse_obj(data)\<close>, the specification's \<open>decode_page\<close>: a value
  that \<^verbatim>\<open>dict()\<close> refuses is a \<^verbatim>\<open>ValidationError\<close>; a key that the constructor call
  refuses makes it raise \<^verbatim>\<open>TypeError\<close>, which nothing catches here.
\<close>

definition parse_obj :: "json \<Rightarrow> error + ListBooksResponse" where
  "parse_obj obj =
     (case py_dict obj of
        None \<Rightarrow> Inl ValidationError
      | Some d \<Rightarrow>
          (case kwargs d of
             None \<Rightarrow> Inl TypeError
           | Some kw \<Rightarrow>
               (case ListBooksResponse_init kw of
                  None \<Rightarrow> Inl ValidationError
                | Some p \<Rightarrow> Inr p)))"

section \<open>The HTTP layer\<close>

text \<open>
  \<^verbatim>\<open>session.get(url=url, params=params)\<close> against a server that answers each request
  the same way every time. \<^verbatim>\<open>params\<close> is the dict of keyword arguments on the first
  request and \<^verbatim>\<open>None\<close> afterwards. \<open>Inl\<close> is \<^verbatim>\<open>session.get\<close> itself raising.
\<close>

type_synonym params = "(string \<times> string) list"

type_synonym request = "string \<times> params option"

type_synonym server = "request \<Rightarrow> string + Response"

definition endpoint :: string where
  "endpoint = ''https://gutendex.com/books/''"

text \<open>\<^verbatim>\<open>r.raise_for_status()\<close> raises for the client and server error statuses.\<close>

definition raise_for_status :: "Response \<Rightarrow> error option" where
  "raise_for_status r =
     (if 400 \<le> status_code r \<and> status_code r < 600 then Some (HTTPError r) else None)"

text \<open>
  Lines 92 to 96 of the loop body: the request, the status check, \<^verbatim>\<open>r.json()\<close> and
  \<^verbatim>\<open>ListBooksResponse.parse_obj(data)\<close>.
\<close>

definition get_page :: "server \<Rightarrow> request \<Rightarrow> error + ListBooksResponse" where
  "get_page srv req =
     (case srv req of
        Inl msg \<Rightarrow> Inl (ConnectionError msg)
      | Inr r \<Rightarrow>
          (case raise_for_status r of
             Some e \<Rightarrow> Inl e
           | None \<Rightarrow>
               (case json_result r of
                  None \<Rightarrow> Inl JSONDecodeError
                | Some data \<Rightarrow> parse_obj data)))"

section \<open>The generator \<^verbatim>\<open>Gutendex.list_of_books\<close>\<close>

text \<open>
  A generator is a suspended computation. Its state is the point where it is suspended:
  \<open>Fetch url params\<close> at the head of the \<^verbatim>\<open>while True\<close> loop (also before the first
  \<^verbatim>\<open>next()\<close>), \<open>InPage bs nxt\<close> inside \<^verbatim>\<open>yield from response.results\<close> with \<open>bs\<close> still
  to be yielded and \<open>nxt\<close> the page's \<^verbatim>\<open>next\<close>, \<open>Closed\<close> after the loop was left or an
  exception went through. The second component is the list of requests issued so far.
\<close>

datatype gen_state =
    Fetch string "params option"
  | InPage "Book list" "string option"
  | Closed

type_synonym gen = "gen_state \<times> request list"

datatype outcome = Yield Book | StopIteration | Raise error

definition list_of_books :: "params \<Rightarrow> gen" where
  "list_of_books params = (Fetch endpoint (Some params), [])"

text \<open>
  One stretch of the body, from where the generator stands to the next \<^verbatim>\<open>yield\<close>,
  exit or loop head. \<open>Inl\<close>: \<^verbatim>\<open>next()\<close> returns to the caller; \<open>Inr\<close>: the body goes on.
  \<^verbatim>\<open>if not url: break\<close> leaves the loop on \<^verbatim>\<open>None\<close> and on the empty string.
\<close>

fun resume :: "server \<Rightarrow> gen \<Rightarrow> (outcome \<times> gen) + gen" where
  "resume srv (Fetch url params, log) =
     (case get_page srv (url, params) of
        Inl e \<Rightarrow> Inl (Raise e, (Closed, log @ [(url, params)]))
      | Inr response \<Rightarrow>
          Inr (InPage (results response) (next' response), log @ [(url, params)]))"
| "resume srv (InPage (b # bs) nxt, log) = Inl (Yield b, (InPage bs nxt, log))"
| "resume srv (InPage [] None, log) = Inl (StopIteration, (Closed, log))"
| "resume srv (InPage [] (Some url), log) =
     (if url = [] then Inl (StopIteration, (Closed, log)) else Inr (Fetch url None, log))"
| "resume srv (Closed, log) = Inl (StopIteration, (Closed, log))"

text \<open>
  \<^verbatim>\<open>next(g)\<close>. The loop need not come back: over pages without records whose links
  form a cycle it requests for ever, and the result is \<open>None\<close>.
\<close>

partial_function (option) gen_next :: "server \<Rightarrow> gen \<Rightarrow> (outcome \<times> gen) option" where
  "gen_next srv g = (case resume srv g of Inl r \<Rightarrow> Some r | Inr g' \<Rightarrow> gen_next srv g')"

text \<open>\<open>k\<close> successive calls of \<^verbatim>\<open>next()\<close>: what each returned, and the generator afterwards.\<close>

fun nexts :: "server \<Rightarrow> nat \<Rightarrow> gen \<Rightarrow> (outcome list \<times> gen) option" where
  "nexts srv 0 g = Some ([], g)"
| "nexts srv (Suc k) g =
     (case gen_next srv g of
        None \<Rightarrow> None
      | Some (out, g') \<Rightarrow> map_option (\<lambda>(outs, g''). (out # outs, g'')) (nexts srv k g'))"

text \<open>
  A caller that consumes the whole sequence (a \<^verbatim>\<open>for\<close> loop, \<^verbatim>\<open>list(...)\<close>): the
  records received, the exception that ended the iteration if one did, and the
  generator afterwards.
\<close>

partial_function (option) drain ::
    "server \<Rightarrow> Book list \<Rightarrow> gen \<Rightarrow> (Book list \<times> error option \<times> gen) option" where
  "drain srv acc g =
     (case gen_next srv g of
        None \<Rightarrow> None
      | Some (Yield b, g') \<Rightarrow> drain srv (acc @ [b]) g'
      | Some (StopIteration, g') \<Rightarrow> Some (acc, None, g')
      | Some (Raise e, g') \<Rightarrow> Some (acc, Some e, g'))"

section \<open>Serialisation\<close>

text \<open>
  The JSON document of \<^verbatim>\<open>person.json()\<close> and \<^verbatim>\<open>book.json()\<close>: one member per
  declared field, in declaration order; \<^verbatim>\<open>None\<close> is written as null; a nested model
  is written as its own document. The keys of \<^verbatim>\<open>formats\<close> are written as JSON member
  names, which turns a key that is not a string into one.
\<close>

fun member :: "json \<Rightarrow> string \<Rightarrow> json option" where
  "member (JObj kvs) k = map_of kvs k"
| "member _ k = None"

fun json_of_option :: "('a \<Rightarrow> json) \<Rightarrow> 'a option \<Rightarrow> json" where
  "json_of_option f None = JNull"
| "json_of_option f (Some x) = f x"

definition Person_json :: "Person \<Rightarrow> json" where
  "Person_json p =
     JObj [(''birth_year'', json_of_option JInt (birth_year p)),
           (''death_year'', json_of_option JInt (death_year p)),
           (''name'', JStr (name p))]"

fun json_key :: "json \<Rightarrow> string" where
  "json_key (JStr s) = s"
| "json_key (JInt n) = str_of_int n"
| "json_key (JBool b) = (if b then ''true'' else ''false'')"
| "json_key _ = ''null''"

definition Book_json :: "Book \<Rightarrow> json" where
  "Book_json b =
     JObj [(''id'', JInt (id' b)),
           (''title'', JStr (title b)),
           (''subjects'', JList (map JStr (subjects b))),
           (''authors'', JList (map Person_json (authors b))),
           (''translators'', JList (map Person_json (translators b))),
           (''bookshelves'', JList (map JStr (bookshelves b))),
           (''languages'', JList (map JStr (languages b))),
           (''copyright'', json_of_option JBool (copyright b)),
           (''media_type'', JStr (media_type b)),
           (''formats'', JObj (map (\<lambda>(k, v). (json_key k, v)) (formats b))),
           (''download_count'', JInt (download_count b))]"

section \<open>Vocabulary of the statements\<close>

subsection \<open>Traversals\<close>

text \<open>
  \<open>pages_from srv req ps\<close>: starting with the request \<open>req\<close>, the server hands out the
  pages \<open>ps\<close> one after the other, each page's \<^verbatim>\<open>next\<close> being the URL (not empty) under
  which the following page is served. \<open>reqs req ps\<close> are the requests that fetch \<open>ps\<close>,
  \<open>following req ps\<close> is the request that comes after them if the last page links
  further, and \<open>records ps\<close> are the records of the pages, in order.
\<close>

definition records :: "ListBooksResponse list \<Rightarrow> Book list" where
  "records ps = concat (map results ps)"

fun reqs :: "request \<Rightarrow> ListBooksResponse list \<Rightarrow> request list" where
  "reqs req [] = []"
| "reqs req (p # ps) = req # reqs ((case next' p of None \<Rightarrow> [] | Some url \<Rightarrow> url), None) ps"

fun pages_from :: "server \<Rightarrow> request \<Rightarrow> ListBooksResponse list \<Rightarrow> bool" where
  "pages_from srv req [] = True"
| "pages_from srv req (p # ps) =
     (get_page srv req = Inr p \<and>
      (ps = [] \<or> (case next' p of None \<Rightarrow> False
                  | Some url \<Rightarrow> url \<noteq> [] \<and> pages_from srv (url, None) ps)))"


text \<open>
  \<open>needed k ps\<close>: how many of the pages \<open>ps\<close> it takes to hold \<open>k\<close> records (the
  lemmas \<open>needed_enough\<close> and \<open>needed_least\<close> say that it is the least such number).
\<close>

fun needed :: "nat \<Rightarrow> ListBooksResponse list \<Rightarrow> nat" where
  "needed k [] = 0"
| "needed k (p # ps) =
     (if k = 0 then 0
      else if k \<le> length (results p) then 1
      else Suc (needed (k - length (results p)) ps))"

text \<open>
  The request log of a traversal. \<open>first_only srv params log\<close>: the first request goes to
  the endpoint with the caller's parameters; every later request carries no parameters
  and goes to the URL that the page fetched by the request before it gave as
  \<^verbatim>\<open>next\<close>. \<open>gen_inv\<close> ties the log to the state of the generator; it is the invariant
  of \<open>resume\<close>.
\<close>

definition link :: "server \<Rightarrow> request \<Rightarrow> string option \<Rightarrow> bool" where
  "link srv r nxt = (case get_page srv r of Inl e \<Rightarrow> False | Inr p \<Rightarrow> next' p = nxt)"

fun chained :: "server \<Rightarrow> request list \<Rightarrow> bool" where
  "chained srv (r # r' # rs) =
     ((case get_page srv r of Inl e \<Rightarrow> False | Inr p \<Rightarrow> next' p = Some (fst r')) \<and>
      snd r' = None \<and> chained srv (r' # rs))"
| "chained srv rs = True"

definition first_only :: "server \<Rightarrow> params \<Rightarrow> request list \<Rightarrow> bool" where
  "first_only srv params log =
     (case log of [] \<Rightarrow> True | r # rs \<Rightarrow> r = (endpoint, Some params) \<and> chained srv (r # rs))"

fun gen_inv :: "server \<Rightarrow> params \<Rightarrow> gen \<Rightarrow> bool" where
  "gen_inv srv params (Fetch url ps, log) =
     (first_only srv params log \<and>
      (if log = [] then url = endpoint \<and> ps = Some params
       else ps = None \<and> link srv (last log) (Some url)))"
| "gen_inv srv params (InPage bs nxt, log) =
     (first_only srv params log \<and> log \<noteq> [] \<and> link srv (last log) nxt)"
| "gen_inv srv params (Closed, log) = first_only srv params log"

subsection \<open>Shapes of JSON documents\<close>

text \<open>
  The documents described in the docstrings of the three classes: every declared
  member is there, with a value of the JSON type of the annotation (null allowed under
  \<^verbatim>\<open>Optional\<close>). \<^verbatim>\<open>formats: dict\<close> asks for an object and nothing about its members;
  \<^verbatim>\<open>download_count: int\<close> asks for an integer of any sign. Members that are not
  declared may be there too, except one named \<^verbatim>\<open>__pydantic_self__\<close>, with which the
  constructor cannot be called (\<open>no_self_key\<close>).
\<close>

definition no_self_key :: "(string \<times> json) list \<Rightarrow> bool" where
  "no_self_key kvs = (''__pydantic_self__'' \<notin> set (map fst kvs))"

fun is_int :: "json \<Rightarrow> bool" where
  "is_int (JInt n) = True"
| "is_int _ = False"

fun is_str :: "json \<Rightarrow> bool" where
  "is_str (JStr s) = True"
| "is_str _ = False"

fun is_bool :: "json \<Rightarrow> bool" where
  "is_bool (JBool b) = True"
| "is_bool _ = False"

fun is_obj :: "json \<Rightarrow> bool" where
  "is_obj (JObj kvs) = True"
| "is_obj _ = False"

fun nullable :: "(json \<Rightarrow> bool) \<Rightarrow> json \<Rightarrow> bool" where
  "nullable P JNull = True"
| "nullable P v = P v"

fun is_list :: "(json \<Rightarrow> bool) \<Rightarrow> json \<Rightarrow> bool" where
  "is_list P (JList xs) = list_all P xs"
| "is_list P _ = False"

definition field :: "(string \<times> json) list \<Rightarrow> string \<Rightarrow> (json \<Rightarrow> bool) \<Rightarrow> bool" where
  "field kvs k P = (case map_of kvs k of None \<Rightarrow> False | Some v \<Rightarrow> P v)"

fun valid_person :: "json \<Rightarrow> bool" where
  "valid_person (JObj kvs) =
     (no_self_key kvs \<and>
      field kvs ''birth_year'' (nullable is_int) \<and>
      field kvs ''death_year'' (nullable is_int) \<and>
      field kvs ''name'' is_str)"
| "valid_person _ = False"

fun valid_book :: "json \<Rightarrow> bool" where
  "valid_book (JObj kvs) =
     (no_self_key kvs \<and>
      field kvs ''id'' is_int \<and>
      field kvs ''title'' is_str \<and>
      field kvs ''subjects'' (is_list is_str) \<and>
      field kvs ''authors'' (is_list valid_person) \<and>
      field kvs ''translators'' (is_list valid_person) \<and>
      field kvs ''bookshelves'' (is_list is_str) \<and>
      field kvs ''languages'' (is_list is_str) \<and>
      field kvs ''copyright'' (nullable is_bool) \<and>
      field kvs ''media_type'' is_str \<and>
      field kvs ''formats'' is_obj \<and>
      field kvs ''download_count'' is_int)"
| "valid_book _ = False"

fun valid_page :: "json \<Rightarrow> bool" where
  "valid_page (JObj kvs) =
     (no_self_key kvs \<and>
      field kvs ''count'' is_int \<and>
      field kvs ''next'' (nullable is_str) \<and>
      field kvs ''previous'' (nullable is_str) \<and>
      field kvs ''results'' (is_list valid_book))"
| "valid_page _ = False"


















definition refusal :: "json \<Rightarrow> error" where
  "refusal v =
     (case py_dict v of
        None \<Rightarrow> ValidationError
      | Some d \<Rightarrow> (case kwargs d of None \<Rightarrow> TypeError | Some kw \<Rightarrow> ValidationError))"

text \<open>
  Documents up to the order of the members of their objects: \<open>canon\<close> sorts the members
  of every object by name, so that two documents differ at most in that order when
  their canonical forms are equal. A wire document has exactly the declared members,
  each once; \<open>str_keys\<close> says that the keys of a record's \<^verbatim>\<open>formats\<close> are strings, as
  the keys of a JSON object are.
\<close>

fun has :: "(json \<Rightarrow> bool) \<Rightarrow> json \<Rightarrow> bool" where
  "has P (JList xs) = list_ex P xs"
| "has P _ = False"

definition clash :: "json \<Rightarrow> (json \<Rightarrow> bool) \<Rightarrow> string list \<Rightarrow> bool" where
  "clash j P ks = list_ex (\<lambda>k. case member j k of None \<Rightarrow> False | Some v \<Rightarrow> P v) ks"

fun canon :: "json \<Rightarrow> json" where
  "canon (JList xs) = JList (map canon xs)"
| "canon (JObj kvs) = JObj (sort_key fst (map (\<lambda>(k, v). (k, canon v)) kvs))"
| "canon v = v"

fun exact_keys :: "string list \<Rightarrow> json \<Rightarrow> bool" where
  "exact_keys ks (JObj kvs) = (distinct (map fst kvs) \<and> set (map fst kvs) = set ks)"
| "exact_keys ks _ = False"

definition wire_person :: "json \<Rightarrow> bool" where
  "wire_person j =
     (valid_person j \<and> exact_keys [''birth_year'', ''death_year'', ''name''] j)"

definition wire_book :: "json \<Rightarrow> bool" where
  "wire_book j =
     (valid_book j \<and>
      exact_keys [''id'', ''title'', ''subjects'', ''authors'', ''translators'', ''bookshelves'',
                  ''languages'', ''copyright'', ''media_type'', ''formats'', ''download_count''] j \<and>
      \<not> clash j (has (\<lambda>x. \<not> wire_person x)) [''authors'', ''translators''])"

definition str_keys :: "Book \<Rightarrow> bool" where
  "str_keys R = list_all (\<lambda>(k, v). is_str k) (formats R)"

section \<open>Example documents and servers\<close>

text \<open>
  The two-page scenario: the first page links to the second, the second has no
  \<^verbatim>\<open>next\<close>. \<open>mock_server nxt second\<close> serves at the endpoint, whatever the parameters, a
  first page whose \<^verbatim>\<open>next\<close> is \<open>nxt\<close>, and answers the request for the second page with
  \<open>second\<close>.
\<close>

definition mock_book :: "int \<Rightarrow> json" where
  "mock_book i =
     JObj [(''id'', JInt i),
           (''title'', JStr ''Roughing It''),
           (''subjects'', JList [JStr ''Travel'']),
           (''authors'', JList [JObj [(''birth_year'', JInt 1835), (''death_year'', JInt 1910),
                                      (''name'', JStr ''Twain, Mark'')]]),
           (''translators'', JList []),
           (''bookshelves'', JList []),
           (''languages'', JList [JStr ''en'']),
           (''copyright'', JBool False),
           (''media_type'', JStr ''Text''),
           (''formats'', JObj [(''text/plain'', JStr ''https://gutendex.com/1.txt'')]),
           (''download_count'', JInt 7)]"

definition mock_record :: "int \<Rightarrow> Book" where
  "mock_record i =
     \<lparr>id' = i, title = ''Roughing It'', subjects = [''Travel''],
      authors = [\<lparr>birth_year = Some 1835, death_year = Some 1910, name = ''Twain, Mark''\<rparr>],
      translators = [], bookshelves = [], languages = [''en''], copyright = Some False,
      media_type = ''Text'',
      formats = [(JStr ''text/plain'', JStr ''https://gutendex.com/1.txt'')],
      download_count = 7\<rparr>"

definition mock_page :: "json \<Rightarrow> json list \<Rightarrow> json" where
  "mock_page nxt books =
     JObj [(''count'', JInt 2), (''next'', nxt), (''previous'', JNull), (''results'', JList books)]"

definition page2_url :: string where
  "page2_url = ''https://gutendex.com/books/?page=2''"

definition ok :: "json \<Rightarrow> string + Response" where
  "ok j = Inr \<lparr>status_code = 200, content = ''{...}'', json_result = Some j\<rparr>"

definition mock_server :: "json \<Rightarrow> (string + Response) \<Rightarrow> server" where
  "mock_server nxt second req =
     (if fst req = endpoint then ok (mock_page nxt [mock_book 1])
      else if req = (page2_url, None) then second
      else Inl ''no route to host'')"

definition mock_first :: "string \<Rightarrow> ListBooksResponse" where
  "mock_first url = \<lparr>count = 2, next' = Some url, previous = None, results = [mock_record 1]\<rparr>"

definition mock_second :: ListBooksResponse where
  "mock_second = \<lparr>count = 2, next' = None, previous = None, results = [mock_record 2]\<rparr>"

definition two_pages :: server where
  "two_pages = mock_server (JStr page2_url) (ok (mock_page JNull [mock_book 2]))"






definition empty_next :: server where
  "empty_next = mock_server (JStr []) (ok (mock_page JNull [mock_book 2]))"

definition many_books :: "json list" where
  "many_books = map mock_book [1, 2, 3, 4, 5, 6, 7, 8, 9, 10, 11, 12, 13, 14, 15, 16, 17, 18, 19,
     20, 21, 22, 23, 24, 25, 26, 27, 28, 29, 30, 31, 32, 33]"










definition shuffled_person :: json where
  "shuffled_person =
     JObj [(''name'', JStr ''Shelley, Mary''), (''death_year'', JInt 1851), (''birth_year'', JNull)]"

definition shuffled_book :: json where
  "shuffled_book =
     JObj [(''title'', JStr ''Frankenstein''),
           (''id'', JInt 84),
           (''download_count'', JInt 7),
           (''formats'', JObj [(''text/plain'', JStr ''https://gutendex.com/84.txt'')]),
           (''authors'', JList [shuffled_person]),
           (''translators'', JList []),
           (''subjects'', JList [JStr ''Horror'']),
           (''languages'', JList [JStr ''en'']),
           (''bookshelves'', JList []),
           (''media_type'', JStr ''Text''),
           (''copyright'', JBool False)]"

section \<open>Facts about the decoders\<close>

lemma no_self_key_Nil [simp]: "no_self_key []"
  by (simp add: no_self_key_def)

lemma no_self_key_Cons [simp]:
  "no_self_key ((k, v) # kvs) = (k \<noteq> ''__pydantic_self__'' \<and> no_self_key kvs)"
  by (auto simp: no_self_key_def)

lemma kwargs_obj:
  "kwargs (map (\<lambda>(k, v). (JStr k, v)) kvs) = (if no_self_key kvs then Some kvs else None)"
  unfolding kwargs_def by (induction kvs) (auto split: option.splits)

lemma Person_validate_obj:
  "Person_validate (JObj kvs) = (if no_self_key kvs then Person_init kvs else None)"
  by (simp add: Person_validate_def kwargs_obj)

lemma Book_validate_obj:
  "Book_validate (JObj kvs) = (if no_self_key kvs then Book_init kvs else None)"
  by (simp add: Book_validate_def kwargs_obj)

lemma parse_obj_obj:
  "parse_obj (JObj kvs) =
   (if no_self_key kvs
    then (case ListBooksResponse_init kvs of None \<Rightarrow> Inl ValidationError | Some p \<Rightarrow> Inr p)
    else Inl TypeError)"
  by (simp add: parse_obj_def kwargs_obj)

lemma those_map:
  "list_all (\<lambda>x. \<exists>y. f x = Some y) xs \<Longrightarrow> \<exists>ys. those (map f xs) = Some ys \<and> map f xs = map Some ys"
  by (induction xs) auto

lemma those_map_Some: "those (map f xs) = Some ys \<Longrightarrow> map f xs = map Some ys"
  by (induction xs arbitrary: ys) (auto split: option.splits)

lemma required_Some: "v \<noteq> JNull \<Longrightarrow> required f (Some v) = f v"
  by (cases v) auto

lemma optional_Some: "v \<noteq> JNull \<Longrightarrow> optional f (Some v) = map_option Some (f v)"
  by (cases v) auto

lemma fieldE:
  assumes "field kvs k P"
  obtains v where "map_of kvs k = Some v" and "P v"
  using assms unfolding field_def by (cases "map_of kvs k") auto

lemma field_required:
  assumes "field kvs k P" and "\<And>v. P v \<Longrightarrow> \<exists>y. f v = Some y \<and> v \<noteq> JNull"
  shows "\<exists>y. required f (map_of kvs k) = Some y"
proof -
  from assms(1) obtain v where v: "map_of kvs k = Some v" "P v" by (rule fieldE)
  from assms(2) [OF v(2)] show ?thesis by (auto simp: v required_Some)
qed

lemma field_optional:
  assumes "field kvs k (nullable P)" and "\<And>v. P v \<Longrightarrow> \<exists>y. f v = Some y"
  shows "\<exists>y. optional f (map_of kvs k) = Some y"
proof -
  from assms(1) obtain v where v: "map_of kvs k = Some v" "nullable P v" by (rule fieldE)
  show ?thesis
  proof (cases "v = JNull")
    case True
    then show ?thesis by (simp add: v)
  next
    case False
    with v(2) have "P v" by (cases v) auto
    from assms(2) [OF this] False show ?thesis by (auto simp: v optional_Some)
  qed
qed

lemma int_ok: "is_int v \<Longrightarrow> \<exists>y. int_validator v = Some y \<and> v \<noteq> JNull"
  by (cases v) auto

lemma str_ok: "is_str v \<Longrightarrow> \<exists>y. str_validator v = Some y \<and> v \<noteq> JNull"
  by (cases v) auto

lemma bool_ok: "is_bool v \<Longrightarrow> \<exists>y. bool_validator v = Some y"
  by (cases v) auto

lemma obj_ok: "is_obj v \<Longrightarrow> \<exists>y. dict_validator v = Some y \<and> v \<noteq> JNull"
  by (cases v) (auto simp: dict_validator_def)

lemma list_ok:
  "is_list P v \<Longrightarrow> (\<And>x. P x \<Longrightarrow> \<exists>y. f x = Some y) \<Longrightarrow>
   \<exists>y. list_validator f v = Some y \<and> v \<noteq> JNull"
proof (cases v)
  case (JList xs)
  assume "is_list P v" and r: "\<And>x. P x \<Longrightarrow> \<exists>y. f x = Some y"
  with JList have "list_all (\<lambda>x. \<exists>y. f x = Some y) xs"
    by (auto simp: list_all_iff)
  from those_map [OF this] JList show ?thesis by auto
qed auto

lemma valid_person_ok: "valid_person j \<Longrightarrow> \<exists>p. Person_validate j = Some p"
proof (cases j)
  case (JObj kvs)
  assume "valid_person j"
  with JObj have n: "no_self_key kvs"
    and a: "field kvs ''birth_year'' (nullable is_int)"
    and b: "field kvs ''death_year'' (nullable is_int)"
    and c: "field kvs ''name'' is_str"
    by auto
  from field_optional [OF a, of int_validator] int_ok
  obtain y1 where y1: "optional int_validator (map_of kvs ''birth_year'') = Some y1" by blast
  from field_optional [OF b, of int_validator] int_ok
  obtain y2 where y2: "optional int_validator (map_of kvs ''death_year'') = Some y2" by blast
  from field_required [OF c, of str_validator] str_ok
  obtain y3 where y3: "required str_validator (map_of kvs ''name'') = Some y3" by blast
  show ?thesis
    by (simp add: JObj Person_validate_obj n Person_init_def y1 y2 y3)
qed auto

lemma valid_book_ok: "valid_book j \<Longrightarrow> \<exists>b. Book_validate j = Some b"
proof (cases j)
  case (JObj kvs)
  assume "valid_book j"
  with JObj have n: "no_self_key kvs" by simp
  from \<open>valid_book j\<close> JObj have f:
    "field kvs ''id'' is_int"
    "field kvs ''title'' is_str"
    "field kvs ''subjects'' (is_list is_str)"
    "field kvs ''authors'' (is_list valid_person)"
    "field kvs ''translators'' (is_list valid_person)"
    "field kvs ''bookshelves'' (is_list is_str)"
    "field kvs ''languages'' (is_list is_str)"
    "field kvs ''copyright'' (nullable is_bool)"
    "field kvs ''media_type'' is_str"
    "field kvs ''formats'' is_obj"
    "field kvs ''download_count'' is_int"
    by auto
  have strs: "\<And>v. is_list is_str v \<Longrightarrow> \<exists>y. list_validator str_validator v = Some y \<and> v \<noteq> JNull"
    using list_ok [of is_str _ str_validator] str_ok by blast
  have pers: "\<And>v. is_list valid_person v \<Longrightarrow>
      \<exists>y. list_validator Person_validate v = Some y \<and> v \<noteq> JNull"
    using list_ok [of valid_person _ Person_validate] valid_person_ok by blast
  from field_required [OF f(1)] int_ok
  obtain y1 where y1: "required int_validator (map_of kvs ''id'') = Some y1" by blast
  from field_required [OF f(2)] str_ok
  obtain y2 where y2: "required str_validator (map_of kvs ''title'') = Some y2" by blast
  from field_required [OF f(3)] strs
  obtain y3 where y3: "required (list_validator str_validator) (map_of kvs ''subjects'') = Some y3"
    by blast
  from field_required [OF f(4)] pers
  obtain y4 where y4: "required (list_validator Person_validate) (map_of kvs ''authors'') = Some y4"
    by blast
  from field_required [OF f(5)] pers
  obtain y5 where y5:
    "required (list_validator Person_validate) (map_of kvs ''translators'') = Some y5"
    by blast
  from field_required [OF f(6)] strs
  obtain y6 where y6:
    "required (list_validator str_validator) (map_of kvs ''bookshelves'') = Some y6"
    by blast
  from field_required [OF f(7)] strs
  obtain y7 where y7: "required (list_validator str_validator) (map_of kvs ''languages'') = Some y7"
    by blast
  from field_optional [OF f(8)] bool_ok
  obtain y8 where y8: "optional bool_validator (map_of kvs ''copyright'') = Some y8" by blast
  from field_required [OF f(9)] str_ok
  obtain y9 where y9: "required str_validator (map_of kvs ''media_type'') = Some y9" by blast
  from field_required [OF f(10)] obj_ok
  obtain y10 where y10: "required dict_validator (map_of kvs ''formats'') = Some y10" by blast
  from field_required [OF f(11)] int_ok
  obtain y11 where y11: "required int_validator (map_of kvs ''download_count'') = Some y11"
    by blast
  show ?thesis
    by (simp add: JObj Book_validate_obj n Book_init_def y1 y2 y3 y4 y5 y6 y7 y8 y9 y10 y11)
qed auto

lemma valid_page_init:
  assumes "valid_page (JObj kvs)" and "map_of kvs ''results'' = Some (JList xs)"
  shows "\<exists>c n p bs. ListBooksResponse_init kvs =
             Some \<lparr>count = c, next' = n, previous = p, results = bs\<rparr>
           \<and> those (map Book_validate xs) = Some bs"
proof -
  from assms(1) have f:
    "field kvs ''count'' is_int"
    "field kvs ''next'' (nullable is_str)"
    "field kvs ''previous'' (nullable is_str)"
    "field kvs ''results'' (is_list valid_book)"
    by auto
  from f(4) have "list_all valid_book xs" by (simp add: field_def assms(2))
  then have "list_all (\<lambda>x. \<exists>y. Book_validate x = Some y) xs"
    unfolding list_all_iff using valid_book_ok by blast
  from those_map [OF this] obtain bs where bs: "those (map Book_validate xs) = Some bs"
    by blast
  have str: "\<And>v. is_str v \<Longrightarrow> \<exists>y. str_validator v = Some y"
    using str_ok by blast
  from field_required [OF f(1), of int_validator, OF int_ok]
  obtain c where c: "required int_validator (map_of kvs ''count'') = Some c" by blast
  from field_optional [OF f(2), of str_validator, OF str]
  obtain n where n: "optional str_validator (map_of kvs ''next'') = Some n" by blast
  from field_optional [OF f(3), of str_validator, OF str]
  obtain p where p: "optional str_validator (map_of kvs ''previous'') = Some p" by blast
  have "ListBooksResponse_init kvs = Some \<lparr>count = c, next' = n, previous = p, results = bs\<rparr>"
    by (simp add: ListBooksResponse_init_def c n p assms(2) bs)
  with bs show ?thesis by blast
qed


lemma Person_init_Some:
  "Person_init kw = Some p \<Longrightarrow>
   optional int_validator (map_of kw ''birth_year'') = Some (birth_year p) \<and>
   optional int_validator (map_of kw ''death_year'') = Some (death_year p) \<and>
   required str_validator (map_of kw ''name'') = Some (name p)"
  by (auto simp: Person_init_def bind_eq_Some_conv)

lemma Book_init_Some:
  "Book_init kw = Some b \<Longrightarrow>
   required int_validator (map_of kw ''id'') = Some (id' b) \<and>
   required str_validator (map_of kw ''title'') = Some (title b) \<and>
   required (list_validator str_validator) (map_of kw ''subjects'') = Some (subjects b) \<and>
   required (list_validator Person_validate) (map_of kw ''authors'') = Some (authors b) \<and>
   required (list_validator Person_validate) (map_of kw ''translators'') = Some (translators b) \<and>
   required (list_validator str_validator) (map_of kw ''bookshelves'') = Some (bookshelves b) \<and>
   required (list_validator str_validator) (map_of kw ''languages'') = Some (languages b) \<and>
   optional bool_validator (map_of kw ''copyright'') = Some (copyright b) \<and>
   required str_validator (map_of kw ''media_type'') = Some (media_type b) \<and>
   required dict_validator (map_of kw ''formats'') = Some (formats b) \<and>
   required int_validator (map_of kw ''download_count'') = Some (download_count b)"
  by (auto simp: Book_init_def bind_eq_Some_conv)

section \<open>Optional fields\<close>

text \<open>
  Claim C8. A person document with an explicit \<^verbatim>\<open>"birth_year": null\<close> that decodes
  gives a Person with no birth year, and the document written from that Person has the
  member \<^verbatim>\<open>birth_year\<close> again, with the value null: the member is not left out.
\<close>

theorem null_birth_year_kept:
  assumes "member j ''birth_year'' = Some JNull"
    and "Person_validate j = Some p"
  shows "birth_year p = None \<and> member (Person_json p) ''birth_year'' = Some JNull"
proof -
  from assms(1) obtain kvs where j: "j = JObj kvs" and m: "map_of kvs ''birth_year'' = Some JNull"
    by (cases j) auto
  from assms(2) have "Person_init kvs = Some p"
    by (simp add: j Person_validate_obj split: if_splits)
  from Person_init_Some [OF this] have "birth_year p = None"
    by (simp add: m)
  then show ?thesis
    by (simp add: Person_json_def)
qed

theorem null_birth_year_kept_witness:
  "member shuffled_person ''birth_year'' = Some JNull
   \<and> Person_validate shuffled_person
     = Some \<lparr>birth_year = None, death_year = Some 1851, name = ''Shelley, Mary''\<rparr>
   \<and> birth_year \<lparr>birth_year = None, death_year = Some 1851, name = ''Shelley, Mary''\<rparr> = None
   \<and> member (Person_json \<lparr>birth_year = None, death_year = Some 1851, name = ''Shelley, Mary''\<rparr>)
       ''birth_year'' = Some JNull"
proof -
  have m: "member shuffled_person ''birth_year'' = Some JNull"
    by (simp add: shuffled_person_def)
  have d: "Person_validate shuffled_person
     = Some \<lparr>birth_year = None, death_year = Some 1851, name = ''Shelley, Mary''\<rparr>"
    by (simp add: shuffled_person_def Person_validate_obj Person_init_def)
  from null_birth_year_kept [OF m d] m d show ?thesis
    by simp
qed

section \<open>Decoding a page\<close>

text \<open>
  Claim C5. A page document whose members have the declared types (\<open>valid_page\<close>: the
  members of the schema, and none that the constructor call refuses) decodes, and the
  decoded page has as many \<^verbatim>\<open>results\<close> as the document's array has entries, entry by
  entry in the order of the array. No bound on the number of entries is assumed or
  checked: the witness is a page of 33 records.
\<close>

theorem valid_page_results_length:
  assumes "valid_page j" and "member j ''results'' = Some (JList xs)"
  shows "\<exists>p. parse_obj j = Inr p \<and> length (results p) = length xs
           \<and> map Book_validate xs = map Some (results p)"
proof -
  from assms(2) obtain kvs where j: "j = JObj kvs" and xs: "map_of kvs ''results'' = Some (JList xs)"
    by (cases j) auto
  from valid_page_init [OF assms(1) [unfolded j] xs] obtain c n p bs where
    i: "ListBooksResponse_init kvs = Some \<lparr>count = c, next' = n, previous = p, results = bs\<rparr>"
    and bs: "those (map Book_validate xs) = Some bs"
    by blast
  from bs have m: "map Book_validate xs = map Some bs"
    by (rule those_map_Some)
  then have "length (map Book_validate xs) = length (map Some bs)"
    by (simp only:)
  then have "length bs = length xs"
    by simp
  moreover from assms(1) have "no_self_key kvs"
    by (simp add: j)
  ultimately show ?thesis
    using i m by (simp add: j parse_obj_obj)
qed

lemma valid_mock_book: "valid_book (mock_book i)"
  by (simp add: mock_book_def field_def)

theorem valid_page_results_length_witness:
  "valid_page (mock_page JNull many_books)
   \<and> member (mock_page JNull many_books) ''results'' = Some (JList many_books)
   \<and> length many_books = 33
   \<and> (\<exists>p. parse_obj (mock_page JNull many_books) = Inr p \<and> length (results p) = 33)"
proof -
  have v: "valid_page (mock_page JNull many_books)"
    by (simp add: mock_page_def field_def many_books_def valid_mock_book)
  have m: "member (mock_page JNull many_books) ''results'' = Some (JList many_books)"
    by (simp add: mock_page_def)
  have l: "length many_books = 33"
    by (simp add: many_books_def)
  from valid_page_results_length [OF v m] v m l show ?thesis
    by auto
qed

section \<open>What the decoder checks\<close>

























lemma parse_obj_refusal: "parse_obj j = Inl e \<Longrightarrow> e = refusal j"
  by (auto simp: parse_obj_def refusal_def split: option.splits)























section \<open>Round trips\<close>

lemma sort_key_alist_eq:
  assumes "distinct (map fst xs)" and "distinct (map fst ys)" and "map_of xs = map_of ys"
  shows "sort_key fst xs = sort_key fst ys"
proof -
  from assms have s: "set xs = set ys"
    by (simp add: map_of_inject_set)
  from assms(1) have dx: "distinct xs" "inj_on fst (set xs)"
    by (simp_all add: distinct_map)
  from assms(2) have dy: "distinct ys" "inj_on fst (set ys)"
    by (simp_all add: distinct_map)
  have i: "inj_on fst (set (sort_key fst xs) \<union> set (sort_key fst ys))"
    using dx(2) by (simp add: s)
  have "distinct (map fst (sort_key fst xs))" and "distinct (map fst (sort_key fst ys))"
    using dx dy by (simp_all add: distinct_map)
  moreover have "sorted (map fst (sort_key fst xs))" and "sorted (map fst (sort_key fst ys))"
    by simp_all
  moreover have "set (sort_key fst xs) = set (sort_key fst ys)"
    by (simp add: s)
  ultimately show ?thesis
    using map_sorted_distinct_set_unique [OF i] by blast
qed

lemma fst_canon_pair: "map fst (map (\<lambda>(k, v). (k, canon v)) xs) = map fst xs"
  by (induction xs) auto

lemma canon_obj_eq:
  assumes "distinct (map fst xs)" and "distinct (map fst ys)"
    and "\<And>k. map_option canon (map_of xs k) = map_option canon (map_of ys k)"
  shows "canon (JObj xs) = canon (JObj ys)"
proof -
  have "map_of (map (\<lambda>(k, v). (k, canon v)) xs) = map_of (map (\<lambda>(k, v). (k, canon v)) ys)"
    using assms(3) by (auto simp: map_of_map fun_eq_iff)
  moreover have "distinct (map fst (map (\<lambda>(k, v). (k, canon v)) xs))"
    and "distinct (map fst (map (\<lambda>(k, v). (k, canon v)) ys))"
    by (simp_all only: fst_canon_pair assms(1,2))
  ultimately have "sort_key fst (map (\<lambda>(k, v). (k, canon v)) xs) =
      sort_key fst (map (\<lambda>(k, v). (k, canon v)) ys)"
    by (intro sort_key_alist_eq)
  then show ?thesis by simp
qed

lemma optional_int_json: "optional int_validator (Some (json_of_option JInt x)) = Some x"
  by (cases x) auto

lemma optional_bool_json: "optional bool_validator (Some (json_of_option JBool x)) = Some x"
  by (cases x) auto

lemma Person_json_validate: "Person_validate (Person_json P) = Some P"
  by (simp add: Person_json_def Person_validate_obj Person_init_def optional_int_json)

lemma strs_back: "those (map (str_validator \<circ> JStr) xs) = Some xs"
  by (induction xs) auto

lemma persons_back: "those (map (Person_validate \<circ> Person_json) ps) = Some ps"
  by (induction ps) (auto simp: Person_json_validate)

lemma formats_back:
  "list_all (\<lambda>(k, v). is_str k) fo \<Longrightarrow>
   map ((\<lambda>(k, v). (JStr k, v)) \<circ> (\<lambda>(k, v). (json_key k, v))) fo = fo"
proof (induction fo)
  case Nil
  show ?case by simp
next
  case (Cons a fo)
  obtain k v where a: "a = (k, v)" by (cases a)
  with Cons.prems obtain s where "k = JStr s" by (cases k) auto
  with Cons a show ?case by simp
qed

lemma Book_json_validate:
  "list_all (\<lambda>(k, v). is_str k) (formats R) \<Longrightarrow> Book_validate (Book_json R) = Some R"
  by (simp add: Book_json_def Book_validate_obj Book_init_def optional_bool_json
      strs_back persons_back dict_validator_def formats_back)

lemma back_optional_int:
  "nullable is_int v \<Longrightarrow> optional int_validator (Some v) = Some y \<Longrightarrow> v = json_of_option JInt y"
  by (cases v) auto

lemma back_optional_bool:
  "nullable is_bool v \<Longrightarrow> optional bool_validator (Some v) = Some y \<Longrightarrow>
   v = json_of_option JBool y"
  by (cases v) auto

lemma back_int: "is_int v \<Longrightarrow> required int_validator (Some v) = Some y \<Longrightarrow> v = JInt y"
  by (cases v) auto

lemma back_str: "is_str v \<Longrightarrow> required str_validator (Some v) = Some y \<Longrightarrow> v = JStr y"
  by (cases v) auto

lemma back_strs_aux:
  "list_all is_str xs \<Longrightarrow> those (map str_validator xs) = Some ys \<Longrightarrow> xs = map JStr ys"
proof (induction xs arbitrary: ys)
  case Nil
  then show ?case by simp
next
  case (Cons x xs)
  then show ?case by (cases x) (auto split: option.splits)
qed

lemma back_strs:
  "is_list is_str v \<Longrightarrow> required (list_validator str_validator) (Some v) = Some ys \<Longrightarrow>
   v = JList (map JStr ys)"
  by (cases v) (auto dest: back_strs_aux)

lemma back_formats:
  "is_obj v \<Longrightarrow> required dict_validator (Some v) = Some fo \<Longrightarrow>
   JObj (map (\<lambda>(k, v). (json_key k, v)) fo) = v"
proof (cases v)
  case (JObj kvs)
  assume "required dict_validator (Some v) = Some fo"
  with JObj have fo: "fo = map (\<lambda>(k, v). (JStr k, v)) kvs"
    by (auto simp: dict_validator_def)
  have "map (\<lambda>(k, v). (json_key k, v)) (map (\<lambda>(k, v). (JStr k, v)) kvs) = kvs"
    by (induction kvs) auto
  with JObj fo show ?thesis by simp
qed auto

lemma wire_person_canon:
  assumes "wire_person j"
  shows "\<exists>P. Person_validate j = Some P \<and> canon (Person_json P) = canon j"
proof -
  from assms have v: "valid_person j"
    and e: "exact_keys [''birth_year'', ''death_year'', ''name''] j"
    by (simp_all add: wire_person_def)
  from v obtain kvs where j: "j = JObj kvs" by (cases j) auto
  from e have d: "distinct (map fst kvs)"
    and keys: "fst ` set kvs = {''birth_year'', ''death_year'', ''name''}"
    by (simp_all add: j)
  from v have n: "no_self_key kvs" by (simp add: j)
  from valid_person_ok [OF v] obtain P where P: "Person_init kvs = Some P"
    by (auto simp: j Person_validate_obj n)
  note I = Person_init_Some [OF P]
  from v obtain v1 where v1: "map_of kvs ''birth_year'' = Some v1" "nullable is_int v1"
    by (auto simp: j elim: fieldE)
  from v obtain v2 where v2: "map_of kvs ''death_year'' = Some v2" "nullable is_int v2"
    by (auto simp: j elim: fieldE)
  from v obtain v3 where v3: "map_of kvs ''name'' = Some v3" "is_str v3"
    by (auto simp: j elim: fieldE)
  have m1: "map_of kvs ''birth_year'' = Some (json_of_option JInt (birth_year P))"
    using back_optional_int [OF v1(2)] I v1(1) by simp
  have m2: "map_of kvs ''death_year'' = Some (json_of_option JInt (death_year P))"
    using back_optional_int [OF v2(2)] I v2(1) by simp
  have m3: "map_of kvs ''name'' = Some (JStr (name P))"
    using back_str [OF v3(2)] I v3(1) by simp
  have "canon (JObj [(''birth_year'', json_of_option JInt (birth_year P)),
      (''death_year'', json_of_option JInt (death_year P)), (''name'', JStr (name P))]) =
      canon (JObj kvs)"
  proof (rule canon_obj_eq)
    show "distinct (map fst kvs)" by (rule d)
  next
    fix k
    show "map_option canon (map_of [(''birth_year'', json_of_option JInt (birth_year P)),
        (''death_year'', json_of_option JInt (death_year P)), (''name'', JStr (name P))] k) =
        map_option canon (map_of kvs k)"
    proof (cases "k \<in> {''birth_year'', ''death_year'', ''name''}")
      case False
      with keys have "map_of kvs k = None"
        by (simp add: map_of_eq_None_iff)
      with False show ?thesis by simp
    next
      case True
      then consider "k = ''birth_year''" | "k = ''death_year''" | "k = ''name''" by auto
      then show ?thesis
        by cases (simp_all del: canon.simps add: m1 m2 m3)
    qed
  qed simp
  with P show ?thesis
    by (simp add: j Person_validate_obj n Person_json_def del: canon.simps)
qed

lemma back_persons_aux:
  "list_all wire_person xs \<Longrightarrow> those (map Person_validate xs) = Some ps \<Longrightarrow>
   map canon (map Person_json ps) = map canon xs"
proof (induction xs arbitrary: ps)
  case Nil
  then show ?case by simp
next
  case (Cons x xs)
  from Cons.prems(2) obtain p ps' where p: "Person_validate x = Some p"
    and ps': "those (map Person_validate xs) = Some ps'" and ps: "ps = p # ps'"
    by (auto split: option.splits)
  from Cons.prems(1) have "wire_person x" and "list_all wire_person xs" by simp_all
  from wire_person_canon [OF this(1)] p Cons.IH [OF this(2) ps'] show ?case
    by (auto simp: ps simp del: canon.simps)
qed

lemma back_persons:
  assumes "member j k = Some v" and "is_list valid_person v"
    and "\<not> clash j (has (\<lambda>x. \<not> wire_person x)) [''authors'', ''translators'']"
    and "k \<in> {''authors'', ''translators''}"
    and "required (list_validator Person_validate) (Some v) = Some ps"
  shows "canon (JList (map Person_json ps)) = canon v"
proof -
  from assms(2) obtain xs where v: "v = JList xs" by (cases v) auto
  from assms(1,3,4) have "list_all wire_person xs"
    by (auto simp: clash_def v list_all_iff list_ex_iff)
  moreover from assms(5) have "those (map Person_validate xs) = Some ps" by (simp add: v)
  ultimately have "map canon (map Person_json ps) = map canon xs" by (rule back_persons_aux)
  then show ?thesis by (simp add: v)
qed

lemma wire_book_canon:
  assumes "wire_book j"
  shows "\<exists>R. Book_validate j = Some R \<and> list_all (\<lambda>(k, v). is_str k) (formats R)
           \<and> canon (Book_json R) = canon j"
proof -
  from assms have v: "valid_book j"
    and e: "exact_keys [''id'', ''title'', ''subjects'', ''authors'', ''translators'',
      ''bookshelves'', ''languages'', ''copyright'', ''media_type'', ''formats'',
      ''download_count''] j"
    and w: "\<not> clash j (has (\<lambda>x. \<not> wire_person x)) [''authors'', ''translators'']"
    by (simp_all add: wire_book_def)
  from v obtain kvs where j: "j = JObj kvs" by (cases j) auto
  from e have d: "distinct (map fst kvs)"
    and keys: "fst ` set kvs = {''id'', ''title'', ''subjects'', ''authors'', ''translators'',
      ''bookshelves'', ''languages'', ''copyright'', ''media_type'', ''formats'',
      ''download_count''}"
    by (simp_all add: j)
  from v have n: "no_self_key kvs" by (simp add: j)
  from valid_book_ok [OF v] obtain R where R: "Book_init kvs = Some R"
    by (auto simp: j Book_validate_obj n)
  note I = Book_init_Some [OF R]
  from v have f:
    "field kvs ''id'' is_int"
    "field kvs ''title'' is_str"
    "field kvs ''subjects'' (is_list is_str)"
    "field kvs ''authors'' (is_list valid_person)"
    "field kvs ''translators'' (is_list valid_person)"
    "field kvs ''bookshelves'' (is_list is_str)"
    "field kvs ''languages'' (is_list is_str)"
    "field kvs ''copyright'' (nullable is_bool)"
    "field kvs ''media_type'' is_str"
    "field kvs ''formats'' is_obj"
    "field kvs ''download_count'' is_int"
    by (auto simp: j)
  from f(1) obtain v1 where v1: "map_of kvs ''id'' = Some v1" "is_int v1" by (rule fieldE)
  from f(2) obtain v2 where v2: "map_of kvs ''title'' = Some v2" "is_str v2" by (rule fieldE)
  from f(3) obtain v3 where v3: "map_of kvs ''subjects'' = Some v3" "is_list is_str v3"
    by (rule fieldE)
  from f(4) obtain v4 where v4: "map_of kvs ''authors'' = Some v4" "is_list valid_person v4"
    by (rule fieldE)
  from f(5) obtain v5 where v5: "map_of kvs ''translators'' = Some v5" "is_list valid_person v5"
    by (rule fieldE)
  from f(6) obtain v6 where v6: "map_of kvs ''bookshelves'' = Some v6" "is_list is_str v6"
    by (rule fieldE)
  from f(7) obtain v7 where v7: "map_of kvs ''languages'' = Some v7" "is_list is_str v7"
    by (rule fieldE)
  from f(8) obtain v8 where v8: "map_of kvs ''copyright'' = Some v8" "nullable is_bool v8"
    by (rule fieldE)
  from f(9) obtain v9 where v9: "map_of kvs ''media_type'' = Some v9" "is_str v9"
    by (rule fieldE)
  from f(10) obtain v10 where v10: "map_of kvs ''formats'' = Some v10" "is_obj v10"
    by (rule fieldE)
  from f(11) obtain v11 where v11: "map_of kvs ''download_count'' = Some v11" "is_int v11"
    by (rule fieldE)
  have m1: "v1 = JInt (id' R)"
    using back_int [OF v1(2)] I v1(1) by simp
  have m2: "v2 = JStr (title R)"
    using back_str [OF v2(2)] I v2(1) by simp
  have m3: "v3 = JList (map JStr (subjects R))"
    using back_strs [OF v3(2)] I v3(1) by simp
  have m4: "canon (JList (map Person_json (authors R))) = canon v4"
    using back_persons [of j "''authors''" v4 "authors R"] v4 w I by (simp add: j)
  have m5: "canon (JList (map Person_json (translators R))) = canon v5"
    using back_persons [of j "''translators''" v5 "translators R"] v5 w I by (simp add: j)
  have m6: "v6 = JList (map JStr (bookshelves R))"
    using back_strs [OF v6(2)] I v6(1) by simp
  have m7: "v7 = JList (map JStr (languages R))"
    using back_strs [OF v7(2)] I v7(1) by simp
  have m8: "v8 = json_of_option JBool (copyright R)"
    using back_optional_bool [OF v8(2)] I v8(1) by simp
  have m9: "v9 = JStr (media_type R)"
    using back_str [OF v9(2)] I v9(1) by simp
  have m10: "JObj (map (\<lambda>(k, v). (json_key k, v)) (formats R)) = v10"
    using back_formats [OF v10(2)] I v10(1) by simp
  have m11: "v11 = JInt (download_count R)"
    using back_int [OF v11(2)] I v11(1) by simp
  from v10(2) obtain fkvs where "v10 = JObj fkvs" by (cases v10) auto
  with I v10(1) have "formats R = map (\<lambda>(k, v). (JStr k, v)) fkvs"
    by (simp add: dict_validator_def)
  then have strs: "list_all (\<lambda>(k, v). is_str k) (formats R)"
    by (simp add: list_all_iff split_def)
  have "canon (Book_json R) = canon (JObj kvs)"
    unfolding Book_json_def
  proof (rule canon_obj_eq)
    show "distinct (map fst kvs)" by (rule d)
  next
    fix k
    let ?L = "[(''id'', JInt (id' R)), (''title'', JStr (title R)),
        (''subjects'', JList (map JStr (subjects R))),
        (''authors'', JList (map Person_json (authors R))),
        (''translators'', JList (map Person_json (translators R))),
        (''bookshelves'', JList (map JStr (bookshelves R))),
        (''languages'', JList (map JStr (languages R))),
        (''copyright'', json_of_option JBool (copyright R)),
        (''media_type'', JStr (media_type R)),
        (''formats'', JObj (map (\<lambda>(k, v). (json_key k, v)) (formats R))),
        (''download_count'', JInt (download_count R))]"
    show "map_option canon (map_of ?L k) = map_option canon (map_of kvs k)"
    proof (cases "k \<in> fst ` set kvs")
      case False
      then have "map_of kvs k = None"
        by (simp add: map_of_eq_None_iff)
      with False show ?thesis by (simp add: keys)
    next
      case True
      then have "k \<in> {''id'', ''title'', ''subjects'', ''authors'', ''translators'',
          ''bookshelves'', ''languages'', ''copyright'', ''media_type'', ''formats'',
          ''download_count''}"
        unfolding keys .
      then show ?thesis
      proof (elim insertE emptyE)
        assume "k = ''id''"
        then show ?thesis by (simp add: v1 m1 del: canon.simps)
      next
        assume "k = ''title''"
        then show ?thesis by (simp add: v2 m2 del: canon.simps)
      next
        assume "k = ''subjects''"
        then show ?thesis by (simp add: v3 m3 del: canon.simps)
      next
        assume "k = ''authors''"
        then show ?thesis by (simp add: v4 m4 del: canon.simps)
      next
        assume "k = ''translators''"
        then show ?thesis by (simp add: v5 m5 del: canon.simps)
      next
        assume "k = ''bookshelves''"
        then show ?thesis by (simp add: v6 m6 del: canon.simps)
      next
        assume "k = ''languages''"
        then show ?thesis by (simp add: v7 m7 del: canon.simps)
      next
        assume "k = ''copyright''"
        then show ?thesis by (simp add: v8 m8 del: canon.simps)
      next
        assume "k = ''media_type''"
        then show ?thesis by (simp add: v9 m9 del: canon.simps)
      next
        assume "k = ''formats''"
        then show ?thesis by (simp add: v10 m10 del: canon.simps)
      next
        assume "k = ''download_count''"
        then show ?thesis by (simp add: v11 m11 del: canon.simps)
      qed
    qed
  qed simp
  with R strs show ?thesis
    by (simp add: j Book_validate_obj n del: canon.simps)
qed

lemma wire_shuffled_person: "wire_person shuffled_person"
  by code_simp

lemma wire_shuffled_book: "wire_book shuffled_book"
  by code_simp

text \<open>
  Claim C3. Decoding the document written from a Person gives that Person back, and
  the same holds for a record whose \<^verbatim>\<open>formats\<close> has strings as keys (a record that
  came from a JSON object has). In the other direction, a wire document of a person
  or of a record, with exactly the declared members in any order, decodes to a value
  whose document is the wire document up to the order of members.
\<close>

theorem encode_decode_round_trip:
  "Person_validate (Person_json P) = Some P
   \<and> (str_keys R \<longrightarrow> Book_validate (Book_json R) = Some R)
   \<and> (wire_person j \<longrightarrow> (\<exists>P'. Person_validate j = Some P' \<and> canon (Person_json P') = canon j))
   \<and> (wire_book j \<longrightarrow>
        (\<exists>R'. Book_validate j = Some R' \<and> str_keys R' \<and> canon (Book_json R') = canon j))"
proof (intro conjI impI)
  show "Person_validate (Person_json P) = Some P"
    by (rule Person_json_validate)
next
  assume "str_keys R"
  then show "Book_validate (Book_json R) = Some R"
    unfolding str_keys_def by (rule Book_json_validate)
next
  assume "wire_person j"
  then show "\<exists>P'. Person_validate j = Some P' \<and> canon (Person_json P') = canon j"
    by (rule wire_person_canon)
next
  assume "wire_book j"
  from wire_book_canon [OF this]
  show "\<exists>R'. Book_validate j = Some R' \<and> str_keys R' \<and> canon (Book_json R') = canon j"
    unfolding str_keys_def .
qed

theorem encode_decode_round_trip_witness:
  "str_keys (mock_record 1)
   \<and> Book_validate (Book_json (mock_record 1)) = Some (mock_record 1)
   \<and> wire_person shuffled_person
   \<and> (\<exists>P'. Person_validate shuffled_person = Some P'
          \<and> canon (Person_json P') = canon shuffled_person)
   \<and> wire_book shuffled_book
   \<and> (\<exists>R'. Book_validate shuffled_book = Some R'
          \<and> canon (Book_json R') = canon shuffled_book)"
proof -
  have s: "str_keys (mock_record 1)"
    by (simp add: str_keys_def mock_record_def)
  from encode_decode_round_trip [of _ "mock_record 1" shuffled_person]
    encode_decode_round_trip [of _ _ shuffled_book] s wire_shuffled_person wire_shuffled_book
  show ?thesis by blast
qed

section \<open>Facts about the generator\<close>


lemma get_page_other_status:
  "srv req = Inr r \<Longrightarrow> \<not> (400 \<le> status_code r \<and> status_code r < 600) \<Longrightarrow>
   get_page srv req =
   (case json_result r of None \<Rightarrow> Inl JSONDecodeError | Some data \<Rightarrow> parse_obj data)"
  by (auto simp: get_page_def raise_for_status_def)

lemma gen_next_Fetch_ok:
  "get_page srv (url, params) = Inr p \<Longrightarrow>
   gen_next srv (Fetch url params, log) =
   gen_next srv (InPage (results p) (next' p), log @ [(url, params)])"
  by (subst gen_next.simps) simp


lemma gen_next_yield:
  "gen_next srv (InPage (b # bs) nxt, log) = Some (Yield b, (InPage bs nxt, log))"
  by (subst gen_next.simps) simp

lemma gen_next_null:
  "gen_next srv (InPage [] None, log) = Some (StopIteration, (Closed, log))"
  by (subst gen_next.simps) simp

lemma gen_next_empty:
  "gen_next srv (InPage [] (Some []), log) = Some (StopIteration, (Closed, log))"
  by (subst gen_next.simps) simp

lemma gen_next_follow:
  "url \<noteq> [] \<Longrightarrow> gen_next srv (InPage [] (Some url), log) = gen_next srv (Fetch url None, log)"
  by (subst gen_next.simps) simp



lemma nexts_cong:
  "gen_next srv g = gen_next srv g' \<Longrightarrow> nexts srv (Suc k) g = nexts srv (Suc k) g'"
  by simp

lemma nexts_yields:
  "k \<le> length bs \<Longrightarrow>
   nexts srv k (InPage bs nxt, log) = Some (map Yield (take k bs), (InPage (drop k bs) nxt, log))"
proof (induction k arbitrary: bs)
  case 0
  show ?case by simp
next
  case (Suc k)
  then obtain b bs' where bs: "bs = b # bs'" and "k \<le> length bs'"
    by (cases bs) auto
  from Suc.IH [OF this(2)] show ?case
    by (simp add: bs gen_next_yield)
qed

lemma nexts_page:
  "nexts srv (length bs + j) (InPage bs nxt, log) =
   map_option (\<lambda>(outs, g). (map Yield bs @ outs, g)) (nexts srv j (InPage [] nxt, log))"
proof (induction bs)
  case Nil
  show ?case by (simp add: option.map_ident split_def)
next
  case (Cons b bs)
  then show ?case
    by (simp add: gen_next_yield option.map_comp comp_def split_def)
qed

lemma drain_cong: "gen_next srv g = gen_next srv g' \<Longrightarrow> drain srv acc g = drain srv acc g'"
  by (subst drain.simps, subst (2) drain.simps) simp

lemma drain_page:
  "drain srv acc (InPage bs nxt, log) = drain srv (acc @ bs) (InPage [] nxt, log)"
proof (induction bs arbitrary: acc)
  case Nil
  show ?case by simp
next
  case (Cons b bs)
  have "drain srv acc (InPage (b # bs) nxt, log) = drain srv (acc @ [b]) (InPage bs nxt, log)"
    by (subst drain.simps) (simp add: gen_next_yield)
  with Cons show ?case by simp
qed

lemma drain_stop_null:
  "drain srv acc (InPage [] None, log) = Some (acc, None, (Closed, log))"
  by (subst drain.simps) (simp add: gen_next_null)

lemma drain_stop_empty:
  "drain srv acc (InPage [] (Some []), log) = Some (acc, None, (Closed, log))"
  by (subst drain.simps) (simp add: gen_next_empty)


lemma records_Cons: "records (p # ps) = results p @ records ps"
  by (simp add: records_def)

lemma length_reqs: "length (reqs req ps) = length ps"
  by (induction ps arbitrary: req) auto

lemma drain_pages:
  "pages_from srv req ps \<Longrightarrow> ps \<noteq> [] \<Longrightarrow>
   drain srv acc (Fetch (fst req) (snd req), log) =
   drain srv (acc @ records ps) (InPage [] (next' (last ps)), log @ reqs req ps)"
proof (induction ps arbitrary: req acc log)
  case Nil
  then show ?case by simp
next
  case (Cons p ps)
  from Cons.prems have gp: "get_page srv (fst req, snd req) = Inr p" by simp
  have step: "drain srv acc (Fetch (fst req) (snd req), log) =
      drain srv (acc @ results p) (InPage [] (next' p), log @ [req])"
    using drain_cong [OF gen_next_Fetch_ok [OF gp], of acc log]
      drain_page [of srv acc "results p" "next' p" "log @ [req]"] by simp
  show ?case
  proof (cases "ps = []")
    case True
    with step show ?thesis by (simp add: records_def)
  next
    case False
    with Cons.prems obtain url where u: "next' p = Some url" "url \<noteq> []"
      and pf: "pages_from srv (url, None) ps"
      by (auto split: option.splits)
    have "drain srv (acc @ results p) (InPage [] (next' p), log @ [req]) =
        drain srv (acc @ results p) (Fetch url None, log @ [req])"
      using drain_cong [OF gen_next_follow [OF u(2)]] by (simp add: u)
    also have "\<dots> = drain srv ((acc @ results p) @ records ps)
        (InPage [] (next' (last ps)), (log @ [req]) @ reqs (url, None) ps)"
      using Cons.IH [OF pf False, of "acc @ results p" "log @ [req]"] by simp
    finally show ?thesis using step False by (simp add: records_def u)
  qed
qed

lemma needed_le: "needed k ps \<le> length ps"
  by (induction ps arbitrary: k) auto

lemma needed_enough:
  "k \<le> length (records ps) \<Longrightarrow> k \<le> length (records (take (needed k ps) ps))"
proof (induction ps arbitrary: k)
  case Nil
  then show ?case by (simp add: records_def)
next
  case (Cons p ps)
  show ?case
  proof (cases "k = 0 \<or> k \<le> length (results p)")
    case True
    then show ?thesis by (auto simp: records_Cons)
  next
    case False
    with Cons.prems have "k - length (results p) \<le> length (records ps)"
      by (simp add: records_Cons)
    from Cons.IH [OF this] False show ?thesis
      by (simp add: records_Cons)
  qed
qed

lemma needed_least:
  "m < needed k ps \<Longrightarrow> length (records (take m ps)) < k"
proof (induction ps arbitrary: k m)
  case Nil
  then show ?case by simp
next
  case (Cons p ps)
  show ?case
  proof (cases m)
    case 0
    with Cons.prems show ?thesis by (auto simp: records_def split: if_splits)
  next
    case (Suc m')
    with Cons.prems have k: "\<not> k \<le> length (results p)" and "m' < needed (k - length (results p)) ps"
      by (auto split: if_splits)
    from Cons.IH [OF this(2)] k Suc show ?thesis
      by (simp add: records_Cons)
  qed
qed

lemma nexts_pages:
  "pages_from srv req ps \<Longrightarrow> 0 < k \<Longrightarrow> k \<le> length (records ps) \<Longrightarrow>
   \<exists>st. nexts srv k (Fetch (fst req) (snd req), log) =
     Some (map Yield (take k (records ps)), (st, log @ take (needed k ps) (reqs req ps)))"
proof (induction ps arbitrary: req k log)
  case Nil
  then show ?case by (simp add: records_def)
next
  case (Cons p ps)
  from Cons.prems have gp: "get_page srv (fst req, snd req) = Inr p" by simp
  from Cons.prems(2) obtain k' where k: "k = Suc k'" by (cases k) auto
  have start: "nexts srv k (Fetch (fst req) (snd req), log) =
      nexts srv k (InPage (results p) (next' p), log @ [req])"
    unfolding k using nexts_cong [OF gen_next_Fetch_ok [OF gp]] by simp
  show ?case
  proof (cases "k \<le> length (results p)")
    case True
    with start nexts_yields [OF True] Cons.prems(2) show ?thesis
      by (simp add: records_Cons)
  next
    case False
    define j where "j = k - length (results p)"
    from False have kj: "k = length (results p) + j" and j0: "0 < j" by (auto simp: j_def)
    from Cons.prems(3) have jle: "j \<le> length (records ps)" by (simp add: kj records_Cons)
    with j0 have "ps \<noteq> []" by (auto simp: records_def)
    with Cons.prems(1) obtain url where u: "next' p = Some url" "url \<noteq> []"
      and pf: "pages_from srv (url, None) ps"
      by (auto split: option.splits)
    from j0 obtain j' where j: "j = Suc j'" by (cases j) auto
    have "nexts srv j (InPage [] (next' p), log @ [req]) = nexts srv j (Fetch url None, log @ [req])"
      unfolding j u using nexts_cong [OF gen_next_follow [OF u(2)]] by simp
    moreover from Cons.IH [OF pf j0 jle, of "log @ [req]"] obtain st where
      "nexts srv j (Fetch url None, log @ [req]) =
         Some (map Yield (take j (records ps)), (st, (log @ [req]) @ take (needed j ps) (reqs (url, None) ps)))"
      by auto
    ultimately have "nexts srv k (InPage (results p) (next' p), log @ [req]) =
        Some (map Yield (results p) @ map Yield (take j (records ps)),
          (st, (log @ [req]) @ take (needed j ps) (reqs (url, None) ps)))"
      unfolding kj nexts_page by simp
    with start False j0 show ?thesis
      by (simp add: kj records_Cons u)
  qed
qed

lemma chained_snoc:
  "chained srv (rs @ [r]) =
   (chained srv rs \<and> (rs \<noteq> [] \<longrightarrow> link srv (last rs) (Some (fst r)) \<and> snd r = None))"
  by (induction srv rs rule: chained.induct) (auto simp: link_def split: sum.splits)

lemma first_only_snoc:
  "first_only srv params (log @ [r]) =
   (if log = [] then r = (endpoint, Some params)
    else first_only srv params log \<and> link srv (last log) (Some (fst r)) \<and> snd r = None)"
proof (cases log)
  case Nil
  then show ?thesis by (simp add: first_only_def)
next
  case (Cons a as)
  then show ?thesis
    using chained_snoc [of srv "a # as" r] by (auto simp: first_only_def)
qed

lemma gen_inv_first_only: "gen_inv srv params g \<Longrightarrow> first_only srv params (snd g)"
  by (cases g; cases "fst g") auto

lemma resume_inv:
  "gen_inv srv params g \<Longrightarrow>
   (case resume srv g of Inl (out, g') \<Rightarrow> gen_inv srv params g' | Inr g' \<Rightarrow> gen_inv srv params g')"
proof (induction srv g rule: resume.induct)
  case (1 srv url ps log)
  then show ?case
    by (auto simp: first_only_snoc link_def split: sum.splits if_splits)
qed (auto split: if_splits)

lemma gen_next_inv:
  assumes "gen_next srv g = Some r" and "gen_inv srv params g"
  shows "gen_inv srv params (snd r)"
proof -
  have "gen_inv srv params g \<longrightarrow> gen_inv srv params (snd r)"
  proof (rule gen_next.raw_induct
      [where P = "\<lambda>s x y. gen_inv s params x \<longrightarrow> gen_inv s params (snd y)"])
    fix f :: "server \<Rightarrow> gen \<Rightarrow> (outcome \<times> gen) option" and s x y
    assume IH: "\<And>s x y. f s x = Some y \<Longrightarrow> gen_inv s params x \<longrightarrow> gen_inv s params (snd y)"
      and eq: "(case resume s x of Inl r \<Rightarrow> Some r | Inr g' \<Rightarrow> f s g') = Some y"
    show "gen_inv s params x \<longrightarrow> gen_inv s params (snd y)"
    proof (cases "resume s x")
      case (Inl a)
      with eq resume_inv [of s params x] show ?thesis by (auto split: prod.splits)
    next
      case (Inr g')
      with eq IH [of s g' y] resume_inv [of s params x] show ?thesis by auto
    qed
  next
    show "gen_next srv g = Some r" by (rule assms(1))
  qed
  with assms(2) show ?thesis by simp
qed

lemma nexts_inv:
  "nexts srv k g = Some (outs, g') \<Longrightarrow> gen_inv srv params g \<Longrightarrow> gen_inv srv params g'"
proof (induction k arbitrary: g outs)
  case 0
  then show ?case by simp
next
  case (Suc k)
  from Suc.prems(1) obtain out g1 outs' where
    a: "gen_next srv g = Some (out, g1)" and b: "nexts srv k g1 = Some (outs', g')"
    by (auto split: option.splits)
  from gen_next_inv [OF a Suc.prems(2)] have "gen_inv srv params g1" by simp
  from Suc.IH [OF b this] show ?case .
qed

subsection \<open>The example servers\<close>

lemma Book_validate_mock: "Book_validate (mock_book i) = Some (mock_record i)"
  by (simp add: Book_validate_def Book_init_def mock_book_def mock_record_def kwargs_def
      Person_validate_def Person_init_def dict_validator_def)

lemma parse_obj_mock_null:
  "parse_obj (mock_page JNull [mock_book i]) =
   Inr \<lparr>count = 2, next' = None, previous = None, results = [mock_record i]\<rparr>"
  by (simp add: parse_obj_def mock_page_def kwargs_def ListBooksResponse_init_def Book_validate_mock)

lemma parse_obj_mock_str:
  "parse_obj (mock_page (JStr url) [mock_book i]) =
   Inr \<lparr>count = 2, next' = Some url, previous = None, results = [mock_record i]\<rparr>"
  by (simp add: parse_obj_def mock_page_def kwargs_def ListBooksResponse_init_def Book_validate_mock)

lemma get_page_mock_first:
  "get_page (mock_server (JStr url) second) (endpoint, params) =
   Inr \<lparr>count = 2, next' = Some url, previous = None, results = [mock_record 1]\<rparr>"
  by (simp add: get_page_def mock_server_def ok_def raise_for_status_def parse_obj_mock_str)

lemma get_page_mock_second:
  "get_page (mock_server nxt (ok (mock_page JNull [mock_book 2]))) (page2_url, None) =
   Inr \<lparr>count = 2, next' = None, previous = None, results = [mock_record 2]\<rparr>"
  by (simp add: get_page_def mock_server_def ok_def raise_for_status_def parse_obj_mock_null
      endpoint_def page2_url_def)

lemma page2_url_nonempty: "page2_url \<noteq> []"
  by (simp add: page2_url_def)

lemma pages_two_pages:
  "pages_from two_pages (endpoint, Some []) [mock_first page2_url, mock_second]"
  by (simp add: two_pages_def get_page_mock_first get_page_mock_second mock_first_def
      mock_second_def page2_url_nonempty)

lemma nexts_two_pages:
  "nexts two_pages (Suc (Suc 0)) (list_of_books params) =
   Some ([Yield (mock_record 1), Yield (mock_record 2)],
         (InPage [] None, [(endpoint, Some params), (page2_url, None)]))"
proof -
  have a: "gen_next two_pages (list_of_books params) =
      Some (Yield (mock_record 1), (InPage [] (Some page2_url), [(endpoint, Some params)]))"
    unfolding list_of_books_def two_pages_def
    by (simp add: gen_next_Fetch_ok [OF get_page_mock_first] gen_next_yield)
  have b: "gen_next two_pages (InPage [] (Some page2_url), [(endpoint, Some params)]) =
      Some (Yield (mock_record 2),
            (InPage [] None, [(endpoint, Some params), (page2_url, None)]))"
    unfolding two_pages_def
    by (simp add: gen_next_follow [OF page2_url_nonempty]
        gen_next_Fetch_ok [OF get_page_mock_second] gen_next_yield)
  show ?thesis by (simp add: a b)
qed

section \<open>Pagination\<close>

text \<open>
  Claim C1. Over a chain of pages, each linking to the next and the last with a null
  \<^verbatim>\<open>next\<close>, consuming the whole sequence terminates and gives the records of all
  pages, page after page and in each page in the order of \<^verbatim>\<open>results\<close>; the requests
  issued are exactly the requests of the pages, one for each.
\<close>

theorem chain_yields_all_pages:
  assumes "pages_from srv (endpoint, Some params) ps"
    and "ps \<noteq> []"
    and "next' (last ps) = None"
  shows "drain srv [] (list_of_books params) =
           Some (records ps, None, (Closed, reqs (endpoint, Some params) ps))
         \<and> length (reqs (endpoint, Some params) ps) = length ps"
  using drain_pages [OF assms(1,2), of "[]" "[]"] assms(3)
  by (simp add: list_of_books_def drain_stop_null length_reqs)

theorem chain_yields_all_pages_witness:
  "pages_from two_pages (endpoint, Some []) [mock_first page2_url, mock_second]
   \<and> [mock_first page2_url, mock_second] \<noteq> []
   \<and> next' (last [mock_first page2_url, mock_second]) = None
   \<and> drain two_pages [] (list_of_books []) =
       Some ([mock_record 1, mock_record 2], None,
             (Closed, [(endpoint, Some []), (page2_url, None)]))"
proof -
  have n: "next' (last [mock_first page2_url, mock_second]) = None"
    by (simp add: mock_second_def)
  have ne: "[mock_first page2_url, mock_second] \<noteq> []"
    by simp
  from chain_yields_all_pages [OF pages_two_pages ne n] pages_two_pages n show ?thesis
    by (simp add: records_def mock_first_def mock_second_def)
qed

text \<open>
  Claim C10. When the \<^verbatim>\<open>next\<close> of a page is the empty string, the sequence ends after
  the records of that page exactly as it does on null, and no request follows.
\<close>

theorem empty_next_stops_traversal:
  assumes "pages_from srv (endpoint, Some params) ps"
    and "ps \<noteq> []"
    and "next' (last ps) = Some []"
  shows "drain srv [] (list_of_books params) =
           Some (records ps, None, (Closed, reqs (endpoint, Some params) ps))
         \<and> length (reqs (endpoint, Some params) ps) = length ps"
  using drain_pages [OF assms(1,2), of "[]" "[]"] assms(3)
  by (simp add: list_of_books_def drain_stop_empty length_reqs)

theorem empty_next_stops_traversal_witness:
  "pages_from empty_next (endpoint, Some []) [mock_first []]
   \<and> [mock_first []] \<noteq> []
   \<and> next' (last [mock_first []]) = Some []
   \<and> drain empty_next [] (list_of_books []) =
       Some ([mock_record 1], None, (Closed, [(endpoint, Some [])]))"
proof -
  have p: "pages_from empty_next (endpoint, Some []) [mock_first []]"
    by (simp add: empty_next_def get_page_mock_first mock_first_def)
  have n: "next' (last [mock_first []]) = Some []"
    by (simp add: mock_first_def)
  have ne: "[mock_first []] \<noteq> []"
    by simp
  from empty_next_stops_traversal [OF p ne n] p n show ?thesis
    by (simp add: records_def mock_first_def)
qed




text \<open>
  Claim C6. A caller that takes \<open>k\<close> records and stops has caused the requests of the
  first \<open>needed k ps\<close> pages and no other, and that number of pages is the least
  that holds \<open>k\<close> records.
\<close>

theorem early_stop_no_further_request:
  assumes "pages_from srv (endpoint, Some params) ps"
    and "k \<le> length (records ps)"
  shows "(\<exists>st. nexts srv k (list_of_books params) =
            Some (map Yield (take k (records ps)),
                  (st, take (needed k ps) (reqs (endpoint, Some params) ps))))
         \<and> length (take (needed k ps) (reqs (endpoint, Some params) ps)) = needed k ps
         \<and> k \<le> length (records (take (needed k ps) ps))
         \<and> (\<forall>m<needed k ps. length (records (take m ps)) < k)"
proof -
  have "\<exists>st. nexts srv k (list_of_books params) =
      Some (map Yield (take k (records ps)),
            (st, take (needed k ps) (reqs (endpoint, Some params) ps)))"
  proof (cases k)
    case 0
    then show ?thesis by (cases ps) (simp_all add: list_of_books_def)
  next
    case (Suc k')
    then have "0 < k" by simp
    from nexts_pages [OF assms(1) this assms(2), of "[]"] show ?thesis
      by (simp add: list_of_books_def)
  qed
  moreover have "length (take (needed k ps) (reqs (endpoint, Some params) ps)) = needed k ps"
    by (simp add: length_reqs needed_le)
  ultimately show ?thesis
    using needed_enough [OF assms(2)] needed_least by blast
qed

theorem early_stop_no_further_request_witness:
  "pages_from two_pages (endpoint, Some []) [mock_first page2_url, mock_second]
   \<and> (1::nat) \<le> length (records [mock_first page2_url, mock_second])
   \<and> (\<exists>st. nexts two_pages 1 (list_of_books []) =
          Some ([Yield (mock_record 1)], (st, [(endpoint, Some [])])))
   \<and> needed 1 [mock_first page2_url, mock_second] = 1"
proof -
  have k: "(1::nat) \<le> length (records [mock_first page2_url, mock_second])"
    by (simp add: records_def mock_first_def)
  have n: "needed 1 [mock_first page2_url, mock_second] = 1"
    by (simp add: mock_first_def)
  from early_stop_no_further_request [OF pages_two_pages k] pages_two_pages k n show ?thesis
    by (simp add: records_def mock_first_def)
qed

text \<open>
  Claim C9. After any number of calls of \<^verbatim>\<open>next()\<close>, against any server, the request
  log has the caller's parameters on its first request only: every later request has
  no parameters and goes to the \<^verbatim>\<open>next\<close> URL of the page before it, unchanged.
\<close>

theorem params_on_first_request_only:
  assumes "nexts srv k (list_of_books params) = Some (outs, g)"
  shows "first_only srv params (snd g)"
proof -
  have "gen_inv srv params (list_of_books params)"
    by (simp add: list_of_books_def first_only_def)
  from nexts_inv [OF assms this] show ?thesis by (rule gen_inv_first_only)
qed

theorem params_on_first_request_only_witness:
  "nexts two_pages (Suc (Suc 0)) (list_of_books [(''languages'', ''fr'')]) =
     Some ([Yield (mock_record 1), Yield (mock_record 2)],
           (InPage [] None,
            [(endpoint, Some [(''languages'', ''fr'')]), (page2_url, None)]))
   \<and> first_only two_pages [(''languages'', ''fr'')]
         [(endpoint, Some [(''languages'', ''fr'')]), (page2_url, None)]"
  using params_on_first_request_only [OF nexts_two_pages [of "[(''languages'', ''fr'')]"]]
    nexts_two_pages [of "[(''languages'', ''fr'')]"]
  by simp

end
